theory Spec2Isabelle
  imports Main "HOL-Library.Word" "HOL-Library.Sublist" "HOL-Library.Multiset"
begin

section \<open>The DCDIU server: session engine, traversal, scanner and file streamer\<close>

text \<open>
  A shallow embedding of the server side of DCDIU:
  \<^item> \<^verbatim>\<open>ClientHandler.cpp\<close> (DCDIU_V4.0): \<open>safe_send\<close>, \<open>hashPassword\<close>,
    \<open>generateSalt\<close>, \<open>authenticate\<close>, \<open>handle\<close>;
  \<^item> \<^verbatim>\<open>DirectoryTraverser.cpp\<close> (DCDIU V3.0): \<open>traverse\<close>;
  \<^item> \<^verbatim>\<open>ContentScanner.cpp\<close> (DCDIU_V4.0): \<open>scan\<close>;
  \<^item> \<^verbatim>\<open>FileInspector.cpp\<close> (DCDIU V4.0): \<open>inspect\<close>.

  Bytes are \<open>char\<close>, a \<open>std::string\<close> is a \<open>string\<close>. What the operating system
  and the libraries decide is data of the model: the file system as seen through
  \<open>stat\<close>, \<open>opendir\<close>, \<open>open\<close> and \<open>read\<close>, the peer that may stop accepting
  bytes, the digest function of OpenSSL and the values drawn from the random
  distribution. The process-wide \<open>LOG\<close> sink and \<open>perror\<close> write to the console only
  and are left out.
\<close>

subsection \<open>Constants and \<open>std::string\<close> operations\<close>

definition BUFFER_SIZE :: nat where
  "BUFFER_SIZE = 4096"

definition END_MARK :: string where
  "END_MARK = ''<<END>>\<newline>''"

text \<open>\<open>string(buffer)\<close>: the bytes of a zero-filled buffer up to the first NUL.\<close>

definition c_str :: "string \<Rightarrow> string" where
  "c_str buffer = takeWhile (\<lambda>c. c \<noteq> CHR 0x00) buffer"

text \<open>\<open>s.compare(0, n, lit) == 0\<close>: the first \<open>n\<close> bytes of \<open>s\<close> (fewer when \<open>s\<close> is
  shorter) are \<open>lit\<close>.\<close>

definition compare0 :: "string \<Rightarrow> nat \<Rightarrow> string \<Rightarrow> bool" where
  "compare0 s n lit = (take n s = lit)"

text \<open>\<open>s.substr(pos)\<close> and \<open>s.substr(pos, n)\<close> throw \<open>std::out_of_range\<close> when
  \<open>pos > s.size()\<close>: the value \<open>None\<close>.\<close>

definition substr :: "string \<Rightarrow> nat \<Rightarrow> string option" where
  "substr s pos = (if pos > length s then None else Some (drop pos s))"

definition substr_n :: "string \<Rightarrow> nat \<Rightarrow> nat \<Rightarrow> string option" where
  "substr_n s pos n = (if pos > length s then None else Some (take n (drop pos s)))"

text \<open>\<open>s.find(c, pos)\<close>: the first index at or after \<open>pos\<close> that holds \<open>c\<close>;
  \<open>npos\<close> is \<open>None\<close>.\<close>

definition find_char :: "string \<Rightarrow> char \<Rightarrow> nat \<Rightarrow> nat option" where
  "find_char s c pos =
     (if c \<in> set (drop pos s)
      then Some (pos + length (takeWhile (\<lambda>x. x \<noteq> c) (drop pos s)))
      else None)"

text \<open>\<open>content.find(pattern)\<close>: the first index where \<open>pattern\<close> starts.\<close>

fun str_find :: "string \<Rightarrow> string \<Rightarrow> nat option" where
  "str_find [] pattern = (if pattern = [] then Some 0 else None)"
| "str_find (c # cs) pattern =
     (if prefix pattern (c # cs) then Some 0 else map_option Suc (str_find cs pattern))"

text \<open>\<open>s.find_last_not_of(cs)\<close>, and the stripping \<open>authenticate\<close> builds on it:
  \<open>pos = s.find_last_not_of("\n\r"); if (pos != npos) s.erase(pos + 1);\<close>.\<close>

definition find_last_not_of :: "string \<Rightarrow> string \<Rightarrow> nat option" where
  "find_last_not_of s cs =
     (let k = length (dropWhile (\<lambda>c. c \<in> set cs) (rev s))
      in if k = 0 then None else Some (k - 1))"

definition strip_crlf :: "string \<Rightarrow> string" where
  "strip_crlf s =
     (case find_last_not_of s [CHR 0x0A, CHR 0x0D] of
        None \<Rightarrow> s
      | Some pos \<Rightarrow> take (pos + 1) s)"

text \<open>\<open>getline(stream, line, delim)\<close> on the unread rest of a stream: \<open>None\<close> when
  nothing is left (the call fails and the loop ends), else the text before the first
  delimiter and the rest behind it.\<close>

definition getline :: "char \<Rightarrow> string \<Rightarrow> (string \<times> string) option" where
  "getline delim s =
     (if s = [] then None
      else Some (takeWhile (\<lambda>c. c \<noteq> delim) s, drop 1 (dropWhile (\<lambda>c. c \<noteq> delim) s)))"

text \<open>\<open>while (getline(in, line))\<close>: the lines the loop sees, in order.\<close>

function getlines :: "string \<Rightarrow> string list" where
  "getlines s =
     (if s = [] then []
      else takeWhile (\<lambda>c. c \<noteq> CHR 0x0A) s
           # getlines (drop 1 (dropWhile (\<lambda>c. c \<noteq> CHR 0x0A) s)))"
  by pat_completeness auto
termination
proof (relation "measure length")
  show "wf (measure length)" by simp
next
  fix s :: string
  assume "s \<noteq> []"
  have "length (dropWhile (\<lambda>c. c \<noteq> CHR 0x0A) s) \<le> length s"
    by (rule length_dropWhile_le)
  with \<open>s \<noteq> []\<close> show "(drop 1 (dropWhile (\<lambda>c. c \<noteq> CHR 0x0A) s), s) \<in> measure length"
    by (cases s) auto
qed

declare getlines.simps [simp del]

text \<open>\<open>std::to_string(int)\<close>: decimal digits, a minus sign for a negative value.\<close>

definition digit_char :: "nat \<Rightarrow> char" where
  "digit_char d = ''0123456789'' ! d"

function dec_digits :: "nat \<Rightarrow> string" where
  "dec_digits n =
     (if n < 10 then [digit_char n] else dec_digits (n div 10) @ [digit_char (n mod 10)])"
  by pat_completeness auto
termination
  by (relation "measure id") auto

declare dec_digits.simps [simp del]

definition to_string :: "int \<Rightarrow> string" where
  "to_string i = (if i < 0 then ''-'' @ dec_digits (nat (- i)) else dec_digits (nat i))"

subsection \<open>The file system\<close>

text \<open>
  What a path resolves to, as \<open>stat\<close> (which follows symbolic links), \<open>opendir\<close>,
  \<open>open\<close> and \<open>read\<close> report it:
  \<^item> \<open>Regular openable bytes fault\<close>: a regular file; \<open>open(O_RDONLY)\<close> succeeds iff
    \<open>openable\<close>; \<open>fault = Some k\<close> makes the read call number \<open>k\<close> (from 0) return
    \<open>-1\<close>;
  \<^item> \<open>Directory openable entries\<close>: a directory; \<open>opendir\<close> succeeds iff \<open>openable\<close>,
    and \<open>readdir\<close> then yields \<open>entries\<close> in this order (the entries \<open>.\<close> and \<open>..\<close>
    may be among them; the code skips them by name);
  \<^item> \<open>Special openable bytes fault\<close>: \<open>stat\<close> succeeds, neither a directory nor a
    regular file (a device, a FIFO, a socket); \<open>open(O_RDONLY)\<close> succeeds iff
    \<open>openable\<close>, and the reads then return \<open>bytes\<close> and end-of-file (the null device: no
    bytes), with \<open>fault\<close> as for a regular file;
  \<^item> \<open>Missing\<close>: \<open>stat\<close> fails.
  A tree is finite, so it has no cycle through symbolic links. A special file whose
  reads never reach end-of-file, or whose \<open>open\<close> does not return, is not a value of
  this type.
\<close>

datatype fnode =
    Regular bool string "nat option"
  | Directory bool "(string \<times> fnode) list"
  | Special bool string "nat option"
  | Missing

text \<open>\<open>open(path, O_RDONLY)\<close>: the bytes still to read and the read fault, or \<open>None\<close>
  for a negative descriptor. A directory opens and fails at the first \<open>read\<close> (EISDIR).\<close>

fun open_rdonly :: "fnode \<Rightarrow> (string \<times> nat option) option" where
  "open_rdonly (Regular openable bytes fault) = (if openable then Some (bytes, fault) else None)"
| "open_rdonly (Directory openable entries) = (if openable then Some ([], Some 0) else None)"
| "open_rdonly (Special openable bytes fault) = (if openable then Some (bytes, fault) else None)"
| "open_rdonly Missing = None"

subsection \<open>The peer and the server's files\<close>

text \<open>
  \<^item> \<open>peer_rx\<close>: the bytes the peer has received on the connection;
  \<^item> \<open>send_script\<close>: what the coming \<open>send\<close> calls on the connection do, in order:
    \<open>Fails\<close> returns \<open>-1\<close>, \<open>Takes k\<close> transmits the first \<open>k\<close> bytes at most and
    returns their number; once the list is used up every \<open>send\<close> transmits all its
    bytes (the empty list: a peer that stays connected and takes every send whole).
    A \<open>send\<close> that raises \<open>SIGPIPE\<close>, which the server does not ignore, ends the
    session's process; it is not among these events, and what is stated below about
    the bytes sent is stated for a peer that stays connected;
  \<^item> \<open>files_txt\<close>: the transient path list \<^verbatim>\<open>data/files.txt\<close> (\<open>None\<close>: absent);
  \<^item> \<open>users_txt\<close>: the credential store \<^verbatim>\<open>data/users.txt\<close> (\<open>None\<close>: absent);
  \<^item> \<open>data_writable\<close>: whether a file under \<^verbatim>\<open>data/\<close> can be opened for writing;
  \<^item> \<open>session_log\<close>: the lines of the session's \<open>logFile\<close> (\<open>None\<close>: not open);
  \<^item> \<open>logs_writable\<close>: whether the session log can be opened.
\<close>

datatype send_event = Fails | Takes nat

record world =
  peer_rx :: string
  send_script :: "send_event list"
  files_txt :: "string option"
  users_txt :: "string option"
  data_writable :: bool
  session_log :: "string list option"
  logs_writable :: bool

text \<open>\<open>send(fd, d, n, 0)\<close>: the world after the call and the value returned.\<close>

definition sock_send :: "world \<Rightarrow> string \<Rightarrow> world \<times> int" where
  "sock_send w d =
     (case send_script w of
        [] \<Rightarrow> (w\<lparr>peer_rx := peer_rx w @ d\<rparr>, int (length d))
      | Fails # later \<Rightarrow> (w\<lparr>send_script := later\<rparr>, - 1)
      | Takes k # later \<Rightarrow>
          (w\<lparr>peer_rx := peer_rx w @ take k d, send_script := later\<rparr>, int (min k (length d))))"

text \<open>\<open>safe_send\<close>: calls \<open>send\<close> on what is left until all bytes are out; gives up
  when a call returns 0 or less.\<close>

function safe_send :: "world \<Rightarrow> string \<Rightarrow> world \<times> bool" where
  "safe_send w d =
     (if d = [] then (w, True)
      else (case sock_send w d of
              (w', sent) \<Rightarrow>
                if sent \<le> 0 then (w', False) else safe_send w' (drop (nat sent) d)))"
  by pat_completeness auto
termination
  by (relation "measure (\<lambda>(w, d). length d)") auto

declare safe_send.simps [simp del]

text \<open>\<open>ofstream(path, ios::trunc).close()\<close> and a write to the end of the file through
  an \<open>ofstream\<close> opened with \<open>ios::app\<close>; both do nothing when the file cannot be
  opened for writing.\<close>

definition truncate_files :: "world \<Rightarrow> world" where
  "truncate_files w = (if data_writable w then w\<lparr>files_txt := Some []\<rparr> else w)"

definition append_text :: "string option \<Rightarrow> string \<Rightarrow> string option" where
  "append_text f d = Some ((case f of None \<Rightarrow> [] | Some old \<Rightarrow> old) @ d)"

definition append_files :: "world \<Rightarrow> string \<Rightarrow> world" where
  "append_files w d =
     (if data_writable w then w\<lparr>files_txt := append_text (files_txt w) d\<rparr> else w)"

text \<open>
  \<open>out << s\<close> on an \<open>ofstream\<close>, as the stream buffer of libstdc++ does it
  (\<open>basic_filebuf::xsputn\<close>): the put area holds \<open>BUFSIZ - 1 = 8191\<close> bytes; a string
  of at least 1024 bytes, or of at least as many bytes as the put area has free, is
  written to the file at once, behind the bytes pending in the put area, which is
  empty afterwards; any other string is added to the put area. The bytes pending are
  written when the stream is closed. A stream that did not open ignores every write.
  The first component is the put area of the stream.
\<close>

definition STREAM_BUF :: nat where
  "STREAM_BUF = 8191"

definition STREAM_CHUNK :: nat where
  "STREAM_CHUNK = 1024"

definition stream_put :: "string \<times> world \<Rightarrow> string \<Rightarrow> string \<times> world" where
  "stream_put ow s =
     (case ow of
        (out, w) \<Rightarrow>
          if \<not> data_writable w then (out, w)
          else if min STREAM_CHUNK (STREAM_BUF - length out) \<le> length s
          then ([], append_files w (out @ s))
          else (out @ s, w))"

text \<open>\<open>ClientHandler::log\<close> and the opening of \<open>logFile\<close>.\<close>

definition log :: "world \<Rightarrow> string \<Rightarrow> world" where
  "log w message =
     (case session_log w of
        None \<Rightarrow> w
      | Some ls \<Rightarrow> w\<lparr>session_log := Some (ls @ [message])\<rparr>)"

definition open_log :: "world \<Rightarrow> world" where
  "open_log w =
     (if logs_writable w
      then w\<lparr>session_log := Some (case session_log w of None \<Rightarrow> [] | Some ls \<Rightarrow> ls)\<rparr>
      else w)"

subsection \<open>\<open>DirectoryTraverser::traverse\<close>\<close>

text \<open>
  The state of a traversal is the shared counter \<open>int& fileCount\<close> (32 bits, an
  overflowing increment written as wrap-around) and the world. Each call opens its own
  stream \<open>out\<close> on the path list with \<open>ios::app\<close> (which creates the file), writes
  the path and the newline of each regular file to it as two strings, and closes it
  after the loop. The bytes a call has pending in its stream reach the file only
  then, behind whatever the calls for the subdirectories walked in the meantime have
  written. \<open>traverse\<close> calls \<open>send\<close> itself and does not look at the results.
  \<open>traverse_entries\<close> is the \<open>readdir\<close> loop; its first component is the put area of
  \<open>out\<close>.
\<close>

fun traverse :: "string \<Rightarrow> fnode \<Rightarrow> 32 word \<times> world \<Rightarrow> 32 word \<times> world"
and traverse_entries ::
  "string \<Rightarrow> (string \<times> fnode) list \<Rightarrow> string \<times> 32 word \<times> world \<Rightarrow> string \<times> 32 word \<times> world"
where
  "traverse basePath (Directory True entries) (fileCount, w) =
     (let w0 = append_files w [];
          w1 = fst (sock_send w0 (''Directory: '' @ basePath @ ''\<newline>''));
          (out, fileCount', w2) = traverse_entries basePath entries ([], fileCount, w1)
      in (fileCount', append_files w2 out))"
| "traverse basePath _ (fileCount, w) =
     (fileCount, fst (sock_send w ''ERROR: Cannot open directory\<newline>''))"
| "traverse_entries basePath [] s = s"
| "traverse_entries basePath ((d_name, node) # rest) (out, fileCount, w) =
     (if d_name = ''.'' \<or> d_name = ''..''
      then traverse_entries basePath rest (out, fileCount, w)
      else let fullPath = basePath @ ''/'' @ d_name in
        (case node of
           Missing \<Rightarrow> traverse_entries basePath rest (out, fileCount, w)
         | Directory _ _ \<Rightarrow>
             traverse_entries basePath rest (out, traverse fullPath node (fileCount, w))
         | Regular _ _ _ \<Rightarrow>
             (case stream_put
                     (stream_put (out, fst (sock_send w (''File: '' @ fullPath @ ''\<newline>'')))
                        fullPath)
                     ''\<newline>'' of
                (out', w') \<Rightarrow> traverse_entries basePath rest (out', fileCount + 1, w'))
         | Special _ _ _ \<Rightarrow> traverse_entries basePath rest (out, fileCount, w)))"

subsection \<open>\<open>ContentScanner::scan\<close>\<close>

text \<open>The read loop \<open>while ((bytes = read(fd, buffer, 4096)) > 0) content.append(...)\<close>:
  the whole content, or \<open>None\<close> when a \<open>read\<close> returns \<open>-1\<close>.\<close>

function read_all :: "nat option \<Rightarrow> string \<Rightarrow> string \<Rightarrow> string option" where
  "read_all fault rest content =
     (if fault = Some 0 then None
      else if rest = [] then Some content
      else read_all (map_option (\<lambda>k. k - 1) fault) (drop 4096 rest)
             (content @ take 4096 rest))"
  by pat_completeness auto
termination
  by (relation "measure (\<lambda>(fault, rest, content). length rest)") auto

declare read_all.simps [simp del]

text \<open>The loop over the lines of the path list. A file that cannot be opened is
  skipped; a failed \<open>read\<close> throws, the handler of \<open>scan\<close> logs it and the matches found
  so far are returned. \<open>close\<close> is taken to succeed.\<close>

fun scan_paths :: "(string \<Rightarrow> fnode) \<Rightarrow> string \<Rightarrow> string list \<Rightarrow> string list \<Rightarrow> string list" where
  "scan_paths fs pattern [] matches = matches"
| "scan_paths fs pattern (filePath # rest) matches =
     (case open_rdonly (fs filePath) of
        None \<Rightarrow> scan_paths fs pattern rest matches
      | Some (bytes, fault) \<Rightarrow>
          (case read_all fault bytes [] of
             None \<Rightarrow> matches
           | Some content \<Rightarrow>
               scan_paths fs pattern rest
                 (if str_find content pattern \<noteq> None then matches @ [filePath] else matches)))"

text \<open>\<open>scan(inputFile, pattern)\<close>, \<open>inputFile\<close> given by its content: a list that cannot be
  opened throws at once and nothing is matched.\<close>

definition scan :: "(string \<Rightarrow> fnode) \<Rightarrow> string option \<Rightarrow> string \<Rightarrow> string list" where
  "scan fs inputFile pattern =
     (case inputFile of
        None \<Rightarrow> []
      | Some paths \<Rightarrow> scan_paths fs pattern (getlines paths) [])"

subsection \<open>\<open>FileInspector::inspect\<close>\<close>

text \<open>The streaming loop: each chunk read is sent at once. The flag is \<open>False\<close> when
  the loop left by an exception (\<open>read\<close> or \<open>send\<close> failed).\<close>

function stream_chunks :: "nat option \<Rightarrow> string \<Rightarrow> world \<Rightarrow> world \<times> bool" where
  "stream_chunks fault rest w =
     (if fault = Some 0 then (w, False)
      else if rest = [] then (w, True)
      else (case sock_send w (take BUFFER_SIZE rest) of
              (w', sent) \<Rightarrow>
                if sent < 0 then (w', False)
                else stream_chunks (map_option (\<lambda>k. k - 1) fault) (drop BUFFER_SIZE rest) w'))"
  by pat_completeness auto
termination
  by (relation "measure (\<lambda>(fault, rest, w). length rest)") (auto simp: BUFFER_SIZE_def)

declare stream_chunks.simps [simp del]

text \<open>\<open>inspect\<close> calls \<open>send\<close> itself, not \<open>safe_send\<close>. Every exception is caught and
  logged inside \<open>inspect\<close>; the caller sees nothing of it. The last \<open>send\<close> throws on a
  negative result, to the same handler.\<close>

definition inspect :: "(string \<Rightarrow> fnode) \<Rightarrow> string \<Rightarrow> world \<Rightarrow> world" where
  "inspect fs filePath w =
     (case open_rdonly (fs filePath) of
        None \<Rightarrow> fst (sock_send w (''ERROR: Cannot open file\<newline>'' @ END_MARK))
      | Some (bytes, fault) \<Rightarrow>
          (case stream_chunks fault bytes w of
             (w', False) \<Rightarrow> w'
           | (w', True) \<Rightarrow> fst (sock_send w' END_MARK)))"

subsection \<open>\<open>ClientHandler\<close>: hashing, salt, authentication\<close>

text \<open>\<open>hashPassword\<close>: \<open>SHA256\<close> of OpenSSL is a parameter, giving the 32-byte buffer
  \<open>hash[0..31]\<close>, or \<open>None\<close> for a null result (the empty string is returned then).
  Each byte is written as two lower-case hexadecimal digits
  (\<open>hex << setw(2) << setfill('0')\<close>).\<close>

definition hex_digit :: "nat \<Rightarrow> char" where
  "hex_digit d = ''0123456789abcdef'' ! d"

definition hex_byte :: "8 word \<Rightarrow> string" where
  "hex_byte b = [hex_digit (unat b div 16), hex_digit (unat b mod 16)]"

definition SHA256_DIGEST_LENGTH :: nat where
  "SHA256_DIGEST_LENGTH = 32"

definition hashPassword :: "(string \<Rightarrow> (nat \<Rightarrow> 8 word) option) \<Rightarrow> string \<Rightarrow> string" where
  "hashPassword SHA256 password =
     (case SHA256 password of
        None \<Rightarrow> []
      | Some hash \<Rightarrow> concat (map (\<lambda>i. hex_byte (hash i)) [0..<SHA256_DIGEST_LENGTH]))"

text \<open>\<open>generateSalt\<close>: \<open>dist i\<close> is the value the call number \<open>i\<close> of \<open>dist(gen)\<close>
  returns; \<open>uniform_int_distribution<>(0, sizeof(charset) - 2)\<close> returns values from 0
  to 61.\<close>

definition charset :: string where
  "charset = ''0123456789ABCDEFGHIJKLMNOPQRSTUVWXYZabcdefghijklmnopqrstuvwxyz''"

definition generateSalt :: "(nat \<Rightarrow> nat) \<Rightarrow> string" where
  "generateSalt dist = map (\<lambda>i. charset ! dist i) [0..<16]"

text \<open>The inbound side of the connection: the chunks the coming \<open>recv\<close> calls return,
  in order. An empty chunk, or none left, is a \<open>recv\<close> that returns 0 or \<open>-1\<close>.\<close>

definition recv :: "string list \<Rightarrow> (string \<times> string list) option" where
  "recv inbound =
     (case inbound of
        [] \<Rightarrow> None
      | buffer # later \<Rightarrow> if buffer = [] then None else Some (buffer, later))"

text \<open>One line of the store read through a \<open>stringstream\<close>:
  \<open>getline(ss, storedUser, ':'); getline(ss, storedSalt, ':'); getline(ss, storedHash);\<close>.
  A \<open>getline\<close> that fails leaves its string empty.\<close>

definition parse_record :: "string \<Rightarrow> string \<times> string \<times> string" where
  "parse_record line =
     (case getline CHR '':'' line of
        None \<Rightarrow> ([], [], [])
      | Some (storedUser, r1) \<Rightarrow>
          (case getline CHR '':'' r1 of
             None \<Rightarrow> (storedUser, [], [])
           | Some (storedSalt, r2) \<Rightarrow>
               (case getline CHR 0x0A r2 of
                  None \<Rightarrow> (storedUser, storedSalt, [])
                | Some (storedHash, r3) \<Rightarrow> (storedUser, storedSalt, storedHash))))"

text \<open>The lines of the store; a store that cannot be opened has none.\<close>

definition store_lines :: "string option \<Rightarrow> string list" where
  "store_lines store = (case store of None \<Rightarrow> [] | Some text \<Rightarrow> getlines text)"

text \<open>The scan of the store: the salt and hash of the first line whose user field is
  the username (the loop returns from inside at that line).\<close>

fun find_user :: "string \<Rightarrow> string list \<Rightarrow> (string \<times> string) option" where
  "find_user username [] = None"
| "find_user username (line # later) =
     (case parse_record line of
        (storedUser, storedSalt, storedHash) \<Rightarrow>
          if storedUser = username then Some (storedSalt, storedHash)
          else find_user username later)"

text \<open>\<open>authenticate\<close> from the opening of the store on (lines 267 to 338), for the
  username and password read before.\<close>

definition check_credentials ::
  "(string \<Rightarrow> (nat \<Rightarrow> 8 word) option) \<Rightarrow> (nat \<Rightarrow> nat) \<Rightarrow> string \<Rightarrow> string \<Rightarrow> world \<Rightarrow> bool \<times> world"
where
  "check_credentials SHA256 dist username password w =
     (case find_user username (store_lines (users_txt w)) of
        Some (storedSalt, storedHash) \<Rightarrow>
          if hashPassword SHA256 (password @ storedSalt) = storedHash
          then (True, fst (safe_send (log (open_log w) ''User authenticated'')
                             ''Login successful\<newline>''))
          else (False, fst (safe_send w ''Incorrect password\<newline>''))
      | None \<Rightarrow>
          (let salt = generateSalt dist;
               hashed = hashPassword SHA256 (password @ salt)
           in if \<not> data_writable w then (False, w)
              else (True,
                fst (safe_send
                  (log (open_log (w\<lparr>users_txt := append_text (users_txt w)
                      (username @ '':'' @ salt @ '':'' @ hashed @ ''\<newline>'')\<rparr>))
                    ''New user registered securely'')
                  ''Account created\<newline>''))))"

text \<open>\<open>authenticate\<close>: the result, the chunks not yet received, the world.\<close>

definition authenticate ::
  "(string \<Rightarrow> (nat \<Rightarrow> 8 word) option) \<Rightarrow> (nat \<Rightarrow> nat) \<Rightarrow> string list \<Rightarrow> world
     \<Rightarrow> bool \<times> string list \<times> world"
where
  "authenticate SHA256 dist inbound w =
     (case safe_send w ''Username: '' of
        (w1, False) \<Rightarrow> (False, inbound, w1)
      | (w1, True) \<Rightarrow>
          (case recv inbound of
             None \<Rightarrow> (False, inbound, w1)
           | Some (buffer1, inbound1) \<Rightarrow>
               (case safe_send w1 ''Password: '' of
                  (w2, False) \<Rightarrow> (False, inbound1, w2)
                | (w2, True) \<Rightarrow>
                    (case recv inbound1 of
                       None \<Rightarrow> (False, inbound1, w2)
                     | Some (buffer2, inbound2) \<Rightarrow>
                         (case check_credentials SHA256 dist
                                 (strip_crlf (c_str buffer1)) (strip_crlf (c_str buffer2)) w2 of
                            (ok, w3) \<Rightarrow> (ok, inbound2, w3))))))"

subsection \<open>\<open>ClientHandler::handle\<close>: the command loop\<close>

text \<open>What one pass of the loop body does with a command: the loop goes on, the
  session ends (\<open>break\<close>), or \<open>substr\<close> throws \<open>std::out_of_range\<close>, which nothing
  catches (the session's process terminates).\<close>

datatype outcome = Continue world | Ended world | Aborted world

fun send_lines :: "world \<Rightarrow> string list \<Rightarrow> world" where
  "send_lines w [] = w"
| "send_lines w (file # later) = send_lines (fst (safe_send w (file @ ''\<newline>''))) later"

definition handle_command :: "(string \<Rightarrow> fnode) \<Rightarrow> string \<Rightarrow> world \<Rightarrow> outcome" where
  "handle_command fs command w0 =
     (let w = log w0 (''Command: '' @ command) in
      if compare0 command 8 ''TRAVERSE'' then
        (case substr command 9 of
           None \<Rightarrow> Aborted w
         | Some path \<Rightarrow>
             (case traverse path (fs path) (0, truncate_files w) of
                (fileCount, w1) \<Rightarrow>
                  (let summary = ''\<newline>Total Files: '' @ to_string (sint fileCount) @ ''\<newline>'';
                       w2 = fst (safe_send w1 summary)
                   in Continue (fst (safe_send w2 END_MARK)))))
      else if compare0 command 6 ''SEARCH'' then
        (case find_char command CHR '' '' 7 of
           None \<Rightarrow> Continue w
         | Some spacePos \<Rightarrow>
             (case substr_n command 7 (spacePos - 7) of
                None \<Rightarrow> Aborted w
              | Some path \<Rightarrow>
                  (case substr command (spacePos + 1) of
                     None \<Rightarrow> Aborted w
                   | Some pattern \<Rightarrow>
                       (case traverse path (fs path) (0, truncate_files w) of
                          (fileCount, w1) \<Rightarrow>
                            (let matches = scan fs (files_txt w1) pattern;
                                 w2 = (if matches = []
                                       then fst (safe_send w1 ''\<newline>No matches found\<newline>'')
                                       else send_lines
                                              (fst (safe_send w1 ''\<newline>Matched Files:\<newline>''))
                                              matches)
                             in Continue (fst (safe_send w2 END_MARK)))))))
      else if compare0 command 7 ''INSPECT'' then
        (case substr command 8 of
           None \<Rightarrow> Aborted w
         | Some path \<Rightarrow> Continue (inspect fs path w))
      else if compare0 command 4 ''EXIT'' then Ended (log w ''Session ended'')
      else Continue (fst (safe_send (fst (safe_send w ''ERROR: Unknown command\<newline>'')) END_MARK)))"

text \<open>The loop \<open>while (true)\<close> over the chunks received; \<open>recv\<close> returning 0 or \<open>-1\<close>
  leaves it.\<close>

datatype session_end = AuthFailed | Disconnected | Exited | Crashed

fun command_loop :: "(string \<Rightarrow> fnode) \<Rightarrow> string list \<Rightarrow> world \<Rightarrow> session_end \<times> world" where
  "command_loop fs [] w = (Disconnected, w)"
| "command_loop fs (buffer # later) w =
     (if buffer = [] then (Disconnected, w)
      else (case handle_command fs (c_str buffer) w of
              Continue w' \<Rightarrow> command_loop fs later w'
            | Ended w' \<Rightarrow> (Exited, w')
            | Aborted w' \<Rightarrow> (Crashed, w')))"

definition handle ::
  "(string \<Rightarrow> (nat \<Rightarrow> 8 word) option) \<Rightarrow> (nat \<Rightarrow> nat) \<Rightarrow> (string \<Rightarrow> fnode) \<Rightarrow> string list \<Rightarrow> world
     \<Rightarrow> session_end \<times> world"
where
  "handle SHA256 dist fs inbound w =
     (case authenticate SHA256 dist inbound w of
        (False, later, w') \<Rightarrow> (AuthFailed, w')
      | (True, later, w') \<Rightarrow> command_loop fs later w')"

subsection \<open>What a traversal is to report\<close>

text \<open>The regular files reachable under a root, each with the full path the
  traversal composes for it: the entries that \<open>stat\<close> shows as regular files, in the
  root and in every directory reached from it through directories that can be opened,
  the entries \<open>.\<close> and \<open>..\<close> aside. What is below a directory that cannot be opened is
  not reachable. The order is the order of enumeration.\<close>

fun regular_files :: "string \<Rightarrow> fnode \<Rightarrow> (string \<times> fnode) list"
and regular_files_entries :: "string \<Rightarrow> (string \<times> fnode) list \<Rightarrow> (string \<times> fnode) list"
where
  "regular_files basePath (Directory True entries) = regular_files_entries basePath entries"
| "regular_files basePath _ = []"
| "regular_files_entries basePath [] = []"
| "regular_files_entries basePath ((d_name, node) # rest) =
     (if d_name = ''.'' \<or> d_name = ''..'' then []
      else (case node of
              Regular _ _ _ \<Rightarrow> [(basePath @ ''/'' @ d_name, node)]
            | Directory _ _ \<Rightarrow> regular_files (basePath @ ''/'' @ d_name) node
            | _ \<Rightarrow> []))
     @ regular_files_entries basePath rest"

text \<open>The announcements a traversal owes the peer: one \<open>Directory:\<close> line per directory
  entered, one \<open>File:\<close> line per regular file, one error line per directory that
  cannot be opened.\<close>

fun announce :: "string \<Rightarrow> fnode \<Rightarrow> string"
and announce_entries :: "string \<Rightarrow> (string \<times> fnode) list \<Rightarrow> string"
where
  "announce basePath (Directory True entries) =
     ''Directory: '' @ basePath @ ''\<newline>'' @ announce_entries basePath entries"
| "announce basePath _ = ''ERROR: Cannot open directory\<newline>''"
| "announce_entries basePath [] = []"
| "announce_entries basePath ((d_name, node) # rest) =
     (if d_name = ''.'' \<or> d_name = ''..'' then []
      else (case node of
              Regular _ _ _ \<Rightarrow> ''File: '' @ basePath @ ''/'' @ d_name @ ''\<newline>''
            | Directory _ _ \<Rightarrow> announce (basePath @ ''/'' @ d_name) node
            | _ \<Rightarrow> []))
     @ announce_entries basePath rest"



text \<open>The text of a list of paths, one per line.\<close>

definition path_lines :: "string list \<Rightarrow> string" where
  "path_lines paths = concat (map (\<lambda>file. file @ ''\<newline>'') paths)"



definition reads_cleanly :: "fnode \<Rightarrow> bool" where
  "reads_cleanly node =
     (case open_rdonly node of
        None \<Rightarrow> True
      | Some (bytes, fault) \<Rightarrow> read_all fault bytes [] \<noteq> None)"

text \<open>A session's world before anything was sent, with a peer that stays connected
  and takes every send whole.\<close>

definition fresh_world :: world where
  "fresh_world =
     \<lparr>peer_rx = [], send_script = [], files_txt = None, users_txt = None,
      data_writable = True, session_log = None, logs_writable = True\<rparr>"

subsection \<open>Example trees\<close>

text \<open>A small tree with a pseudo-entry, a subdirectory, a directory that cannot be
  opened and an entry that \<open>stat\<close> fails on; and a directory of \<open>2^31\<close> empty regular
  files \<open>f0\<close>, \<open>f1\<close>, ...\<close>

definition grove :: fnode where
  "grove = Directory True
     [(''.'', Directory True []), (''a'', Regular True ''x'' None),
      (''d'', Directory True [(''b'', Regular False [] None)]),
      (''locked'', Directory False [(''z'', Regular True [] None)]),
      (''gone'', Missing)]"

definition crowded :: fnode where
  "crowded = Directory True
     (map (\<lambda>i. (CHR ''f'' # dec_digits i, Regular True [] None)) [0..<2147483648])"









subsection \<open>The store's usernames, and sample values\<close>

text \<open>The username fields of the store's records, as \<open>authenticate\<close> reads them.\<close>

definition store_usernames :: "string option \<Rightarrow> string list" where
  "store_usernames store = map (\<lambda>line. fst (parse_record line)) (store_lines store)"

text \<open>A stand-in for the digest function, for statements about sample sessions (the
  byte it repeats is the length of its input), and the store after a session with the
  username \<open>a:b\<close>, the password \<open>pw\<close> and the draws 0, 1, ..., 15.\<close>

definition toy_digest :: "string \<Rightarrow> (nat \<Rightarrow> 8 word) option" where
  "toy_digest s = Some (\<lambda>i. of_nat (length s))"

definition first_store :: "string option" where
  "first_store = Some ''a:b:0123456789ABCDEF:1212121212121212121212121212121212121212121212121212121212121212\<newline>''"

text \<open>A store whose last line is complete: what the appends of \<open>authenticate\<close> leave
  behind.\<close>

definition line_terminated :: "string option \<Rightarrow> bool" where
  "line_terminated store =
     (case store of None \<Rightarrow> True | Some text \<Rightarrow> text = [] \<or> last text = CHR 0x0A)"

subsection \<open>A peer that stays connected\<close>

text \<open>The peer stays connected when no \<open>send\<close> fails and each takes at least one byte;
  it may still take fewer bytes than it is offered.\<close>

fun takes_some :: "send_event \<Rightarrow> bool" where
  "takes_some Fails = False"
| "takes_some (Takes k) = (0 < k)"

definition connected :: "world \<Rightarrow> bool" where
  "connected w = list_all takes_some (send_script w)"

section \<open>Properties\<close>

subsection \<open>Sending, logging and the server's files\<close>

lemma sock_send_whole:
  "send_script w = [] \<Longrightarrow>
   sock_send w d = (w\<lparr>peer_rx := peer_rx w @ d\<rparr>, int (length d))"
  by (simp add: sock_send_def)

lemma safe_send_whole:
  assumes "send_script w = []"
  shows "safe_send w d = (w\<lparr>peer_rx := peer_rx w @ d\<rparr>, True)"
proof (cases "d = []")
  case True
  then show ?thesis by (subst safe_send.simps) simp
next
  case False
  have "safe_send (w\<lparr>peer_rx := peer_rx w @ d\<rparr>) [] = (w\<lparr>peer_rx := peer_rx w @ d\<rparr>, True)"
    by (subst safe_send.simps) simp
  with False show ?thesis
    by (subst safe_send.simps) (simp add: sock_send_whole [OF assms])
qed

lemma sock_send_files [simp]:
  "files_txt (fst (sock_send w d)) = files_txt w"
  "data_writable (fst (sock_send w d)) = data_writable w"
  "users_txt (fst (sock_send w d)) = users_txt w"
  by (simp_all add: sock_send_def split: list.splits send_event.splits)

lemma safe_send_files [simp]:
  "files_txt (fst (safe_send w d)) = files_txt w"
  "data_writable (fst (safe_send w d)) = data_writable w"
  "users_txt (fst (safe_send w d)) = users_txt w"
proof (induction w d rule: safe_send.induct)
  case (1 w d)
  obtain w' sent where s: "sock_send w d = (w', sent)" by (cases "sock_send w d")
  have f: "files_txt w' = files_txt w" "data_writable w' = data_writable w"
    "users_txt w' = users_txt w"
    using sock_send_files [of w d] s by simp_all
  {
    case 1
    show ?case
      using "1.IH"(1) [OF _ s [symmetric]] f s by (subst safe_send.simps) (auto split: if_splits)
  next
    case 2
    show ?case
      using "1.IH"(2) [OF _ s [symmetric]] f s by (subst safe_send.simps) (auto split: if_splits)
  next
    case 3
    show ?case
      using "1.IH"(3) [OF _ s [symmetric]] f s by (subst safe_send.simps) (auto split: if_splits)
  }
qed

lemma log_fields [simp]:
  "peer_rx (log w m) = peer_rx w"
  "send_script (log w m) = send_script w"
  "files_txt (log w m) = files_txt w"
  "users_txt (log w m) = users_txt w"
  "data_writable (log w m) = data_writable w"
  by (simp_all add: log_def split: option.splits)

lemma open_log_fields [simp]:
  "peer_rx (open_log w) = peer_rx w"
  "send_script (open_log w) = send_script w"
  "files_txt (open_log w) = files_txt w"
  "users_txt (open_log w) = users_txt w"
  "data_writable (open_log w) = data_writable w"
  by (simp_all add: open_log_def)

lemma append_files_fields [simp]:
  "peer_rx (append_files w d) = peer_rx w"
  "send_script (append_files w d) = send_script w"
  "data_writable (append_files w d) = data_writable w"
  by (simp_all add: append_files_def)

lemma truncate_files_fields [simp]:
  "peer_rx (truncate_files w) = peer_rx w"
  "send_script (truncate_files w) = send_script w"
  "data_writable (truncate_files w) = data_writable w"
  by (simp_all add: truncate_files_def)


lemma stream_put_fields [simp]:
  "peer_rx (snd (stream_put ow s)) = peer_rx (snd ow)"
  "send_script (snd (stream_put ow s)) = send_script (snd ow)"
  "data_writable (snd (stream_put ow s)) = data_writable (snd ow)"
  by (simp_all add: stream_put_def split: prod.splits)

text \<open>With a peer that stays connected, \<open>safe_send\<close> delivers every byte it is given,
  however short the single sends are taken.\<close>

lemma connected_whole: "send_script w = [] \<Longrightarrow> connected w"
  by (simp add: connected_def)

lemma connected_fields [simp]:
  "connected (log w m) = connected w"
  "connected (open_log w) = connected w"
  "connected (append_files w d) = connected w"
  "connected (truncate_files w) = connected w"
  "connected (w\<lparr>users_txt := u\<rparr>) = connected w"
  "connected (snd (stream_put ow s)) = connected (snd ow)"
  by (simp_all add: connected_def)

lemma sock_send_connected:
  assumes "connected w" and "d \<noteq> []"
  shows "\<exists>n. 0 < n \<and> n \<le> length d
       \<and> snd (sock_send w d) = int n
       \<and> peer_rx (fst (sock_send w d)) = peer_rx w @ take n d
       \<and> connected (fst (sock_send w d))"
proof (cases "send_script w")
  case Nil
  with assms show ?thesis
    by (intro exI [of _ "length d"]) (simp add: sock_send_def connected_def)
next
  case (Cons e later)
  with assms(1) obtain k where e: "e = Takes k" and k: "0 < k" and l: "list_all takes_some later"
    by (cases e) (auto simp: connected_def)
  have "take (min k (length d)) d = take k d"
    by (simp add: min_def)
  then show ?thesis
    using assms(2) Cons e k l
    by (intro exI [of _ "min k (length d)"]) (simp add: sock_send_def connected_def)
qed

lemma sock_send_connected_step:
  assumes "connected w" and "d \<noteq> []"
  shows "connected (fst (sock_send w d))"
    and "\<exists>sent. peer_rx (fst (sock_send w d)) = peer_rx w @ sent"
  using sock_send_connected [OF assms] by auto

lemma safe_send_connected:
  "connected w \<Longrightarrow>
   snd (safe_send w d) \<and> peer_rx (fst (safe_send w d)) = peer_rx w @ d
   \<and> connected (fst (safe_send w d))"
proof (induction w d rule: safe_send.induct)
  case (1 w d)
  show ?case
  proof (cases "d = []")
    case True
    with "1.prems" show ?thesis by (subst (1 2 3) safe_send.simps) simp
  next
    case False
    obtain w' sent where s: "sock_send w d = (w', sent)" by (cases "sock_send w d")
    from sock_send_connected [OF "1.prems" False] s obtain n
      where n: "0 < n" "n \<le> length d" "sent = int n" "peer_rx w' = peer_rx w @ take n d"
        "connected w'"
      by auto
    have pos: "\<not> sent \<le> 0" using n by simp
    from "1.IH" [OF False s [symmetric] pos n(5)]
    have ih: "snd (safe_send w' (drop (nat sent) d))"
      "peer_rx (fst (safe_send w' (drop (nat sent) d))) = peer_rx w' @ drop (nat sent) d"
      "connected (fst (safe_send w' (drop (nat sent) d)))"
      by simp_all
    have unfold: "safe_send w d = safe_send w' (drop (nat sent) d)"
      using False s pos by (subst safe_send.simps) simp
    show ?thesis
      using ih n by (simp add: unfold)
  qed
qed

lemma safe_send_twice:
  assumes "connected w"
  shows "peer_rx (fst (safe_send (fst (safe_send w a)) b)) = peer_rx w @ a @ b"
    and "connected (fst (safe_send (fst (safe_send w a)) b))"
  using safe_send_connected [OF assms, of a]
    safe_send_connected [of "fst (safe_send w a)" b]
  by simp_all

lemma path_lines_simps [simp]:
  "path_lines [] = []"
  "path_lines (x # xs) = x @ ''\<newline>'' @ path_lines xs"
  "path_lines (xs @ ys) = path_lines xs @ path_lines ys"
  by (simp_all add: path_lines_def)

lemma take_prefix_lit: "take n s = lit \<Longrightarrow> m \<le> n \<Longrightarrow> take m s = take m lit"
  by (metis min.absorb1 take_take)

subsection \<open>The command loop\<close>




lemma exit_not_others:
  assumes "take 4 command = ''EXIT''"
  shows "take 8 command \<noteq> ''TRAVERSE''" "take 6 command \<noteq> ''SEARCH''"
    "take 7 command \<noteq> ''INSPECT''"
  using assms take_prefix_lit [of 8 command "''TRAVERSE''" 4]
    take_prefix_lit [of 6 command "''SEARCH''" 4] take_prefix_lit [of 7 command "''INSPECT''" 4]
  by auto



text \<open>
  \<^bold>\<open>C10.\<close> The line that is the eight bytes \<open>TRAVERSE\<close> and nothing more passes the
  prefix test, and \<open>command.substr(9)\<close> then throws \<open>std::out_of_range\<close> (9 is beyond
  the size 8): no traversal is run, nothing is sent, and the exception leaves the
  command loop uncaught.
\<close>

theorem traverse_without_argument_aborts:
  "handle_command fs ''TRAVERSE'' w = Aborted (log w ''Command: TRAVERSE'')
   \<and> command_loop fs (''TRAVERSE'' # later) w = (Crashed, log w ''Command: TRAVERSE'')"
  by (simp add: handle_command_def compare0_def substr_def c_str_def)


lemma exit_prefix_ends_session:
  assumes "take 4 command = ''EXIT''"
  shows "handle_command fs command w
     = Ended (log (log w (''Command: '' @ command)) ''Session ended'')"
  using assms exit_not_others [OF assms]
  by (simp add: handle_command_def compare0_def Let_def)

subsection \<open>The traversal\<close>

text \<open>The counter grows by the number of regular files reachable, whatever the sends
  return and whatever becomes of the path list.\<close>

lemma traverse_count:
  "fst (traverse p node s) = fst s + of_nat (length (regular_files p node))"
  "fst (snd (traverse_entries p es t))
     = fst (snd t) + of_nat (length (regular_files_entries p es))"
proof (induction p node s and p es t rule: traverse_traverse_entries.induct)
  case (1 basePath entries fileCount w)
  then show ?case by (simp add: Let_def case_prod_beta)
next
  case (4 basePath d_name node rest out fileCount w)
  then show ?case
    by (cases node) (simp_all add: Let_def case_prod_beta)
qed simp_all

text \<open>A peer that takes every send whole receives the announcements, in order.\<close>

lemma traverse_peer:
  "send_script (snd s) = [] \<Longrightarrow>
     send_script (snd (traverse p node s)) = []
     \<and> peer_rx (snd (traverse p node s)) = peer_rx (snd s) @ announce p node"
  "send_script (snd (snd t)) = [] \<Longrightarrow>
     send_script (snd (snd (traverse_entries p es t))) = []
     \<and> peer_rx (snd (snd (traverse_entries p es t)))
         = peer_rx (snd (snd t)) @ announce_entries p es"
proof (induction p node s and p es t rule: traverse_traverse_entries.induct)
  case (1 basePath entries fileCount w)
  then show ?case by (simp add: Let_def sock_send_whole case_prod_beta)
next
  case (4 basePath d_name node rest out fileCount w)
  then show ?case
    by (cases node) (simp_all add: Let_def sock_send_whole case_prod_beta)
qed (simp_all add: sock_send_whole)

text \<open>A peer that stays connected remains so through the walk, and what it has received
  is only added to.\<close>

lemma traverse_connected:
  "connected (snd s) \<Longrightarrow>
     connected (snd (traverse p node s))
     \<and> (\<exists>sent. peer_rx (snd (traverse p node s)) = peer_rx (snd s) @ sent)"
  "connected (snd (snd t)) \<Longrightarrow>
     connected (snd (snd (traverse_entries p es t)))
     \<and> (\<exists>sent. peer_rx (snd (snd (traverse_entries p es t))) = peer_rx (snd (snd t)) @ sent)"
proof (induction p node s and p es t rule: traverse_traverse_entries.induct)
  case (1 basePath entries fileCount w)
  let ?d = "''Directory: '' @ basePath @ ''\<newline>''"
  let ?w0 = "append_files w []"
  from "1.prems" have c: "connected ?w0" by simp
  from sock_send_connected [OF c, of ?d] obtain n
    where n: "peer_rx (fst (sock_send ?w0 ?d)) = peer_rx w @ take n ?d"
      "connected (fst (sock_send ?w0 ?d))" by auto
  from "1.IH" [OF refl refl] n(2)
  obtain sent where "connected (snd (snd (traverse_entries basePath entries
        ([], fileCount, fst (sock_send ?w0 ?d)))))"
    and "peer_rx (snd (snd (traverse_entries basePath entries
        ([], fileCount, fst (sock_send ?w0 ?d))))) = peer_rx (fst (sock_send ?w0 ?d)) @ sent"
    by auto
  with n(1) show ?case
    by (simp add: Let_def case_prod_beta)
next
  case (4 basePath d_name node rest out fileCount w)
  show ?case
  proof (cases "d_name = ''.'' \<or> d_name = ''..''")
    case True
    with 4 show ?thesis by simp
  next
    case False
    let ?full = "basePath @ ''/'' @ d_name"
    from "4.prems" have c: "connected w" by simp
    show ?thesis
    proof (cases node)
      case (Regular a b f)
      let ?d = "''File: '' @ ?full @ ''\<newline>''"
      from sock_send_connected [OF c, of ?d] obtain n
        where n: "peer_rx (fst (sock_send w ?d)) = peer_rx w @ take n ?d"
          "connected (fst (sock_send w ?d))" by auto
      obtain out' w' where sp:
        "stream_put (stream_put (out, fst (sock_send w ?d)) ?full) ''\<newline>'' = (out', w')"
        by (cases "stream_put (stream_put (out, fst (sock_send w ?d)) ?full) ''\<newline>''")
      have "w' = snd (stream_put (stream_put (out, fst (sock_send w ?d)) ?full) ''\<newline>'')"
        using sp by simp
      then have w': "connected w'" "peer_rx w' = peer_rx w @ take n ?d"
        using n by simp_all
      from "4.IH"(2) [OF False refl Regular sp [symmetric]] w'(1)
      obtain sent where "connected (snd (snd (traverse_entries basePath rest
            (out', fileCount + 1, w'))))"
        and "peer_rx (snd (snd (traverse_entries basePath rest (out', fileCount + 1, w'))))
            = peer_rx w' @ sent"
        by auto
      with w'(2) False Regular sp show ?thesis by (simp add: Let_def)
    next
      case (Directory a es)
      from "4.IH"(3) [OF False refl Directory] c
      obtain sent1 where t: "connected (snd (traverse ?full node (fileCount, w)))"
        "peer_rx (snd (traverse ?full node (fileCount, w))) = peer_rx w @ sent1"
        by auto
      from "4.IH"(4) [OF False refl Directory] t(1)
      obtain sent2 where "connected (snd (snd (traverse_entries basePath rest
            (out, traverse ?full node (fileCount, w)))))"
        and "peer_rx (snd (snd (traverse_entries basePath rest
            (out, traverse ?full node (fileCount, w)))))
            = peer_rx (snd (traverse ?full node (fileCount, w))) @ sent2"
        by auto
      with t(2) False Directory show ?thesis by (simp add: Let_def)
    next
      case (Special a b f)
      with 4 False show ?thesis by (simp add: Let_def)
    next
      case Missing
      with 4 False show ?thesis by (simp add: Let_def)
    qed
  qed
qed (simp_all add: sock_send_connected_step)








subsection \<open>\<open>TRAVERSE\<close>\<close>




text \<open>The summary of a \<open>TRAVERSE\<close>, for a peer that stays connected: the counter is the
  number of reachable regular files reduced to 32 bits. The summary and the sentinel go
  through \<open>safe_send\<close> and arrive whole; the announcements before them arrive whole when
  every send is taken whole.\<close>

lemma sint_count: "n < 2 ^ 31 \<Longrightarrow> sint (of_nat n :: 32 word) = int n"
  by (simp add: signed_of_nat signed_take_bit_int_eq_self)

lemma traverse_command_connected:
  assumes "connected w"
  shows "\<exists>w' sent. handle_command fs (''TRAVERSE'' @ sep # path) w = Continue w'
       \<and> peer_rx w' = peer_rx w @ sent @ ''\<newline>Total Files: ''
            @ to_string (sint (of_nat (length (regular_files path (fs path))) :: 32 word))
            @ ''\<newline>'' @ END_MARK
       \<and> (send_script w = [] \<longrightarrow> sent = announce path (fs path))"
proof -
  let ?w0 = "truncate_files (log w (''Command: '' @ ''TRAVERSE'' @ sep # path))"
  let ?summary = "''\<newline>Total Files: ''
            @ to_string (sint (of_nat (length (regular_files path (fs path))) :: 32 word))
            @ ''\<newline>''"
  obtain c w1 where t: "traverse path (fs path) (0, ?w0) = (c, w1)"
    by (cases "traverse path (fs path) (0, ?w0)")
  have c: "c = of_nat (length (regular_files path (fs path)))"
    using traverse_count(1) [of path "fs path" "(0, ?w0)"] t by simp
  from traverse_connected(1) [of "(0, ?w0)" path "fs path"] t assms
  obtain sent where c1: "connected w1" and p: "peer_rx w1 = peer_rx w @ sent"
    by auto
  have whole: "sent = announce path (fs path)" if "send_script w = []"
    using traverse_peer(1) [of "(0, ?w0)" path "fs path"] t that p by simp
  have h: "handle_command fs (''TRAVERSE'' @ sep # path) w
      = Continue (fst (safe_send (fst (safe_send w1 ?summary)) END_MARK))"
    using t c by (simp add: handle_command_def compare0_def substr_def Let_def)
  have "peer_rx (fst (safe_send (fst (safe_send w1 ?summary)) END_MARK))
      = peer_rx w @ sent @ ?summary @ END_MARK"
    using safe_send_twice(1) [OF c1, of ?summary END_MARK] p by simp
  with h whole show ?thesis by auto
qed

text \<open>
  \<^bold>\<open>C1.\<close> For a tree with fewer than \<open>2^31\<close> reachable regular files and a peer that
  stays connected, a line \<open>TRAVERSE\<close>, one byte, the root's path is answered by what
  the walk sent (its announcements, when every send is taken whole), then the summary
  whose count is the number of regular files reachable under the root, then the
  sentinel.
\<close>

theorem traverse_reports_reachable_file_count:
  assumes "connected w"
    and "length (regular_files path (fs path)) < 2 ^ 31"
  shows "\<exists>w' sent. handle_command fs (''TRAVERSE'' @ sep # path) w = Continue w'
       \<and> peer_rx w' = peer_rx w @ sent @ ''\<newline>Total Files: ''
            @ to_string (int (length (regular_files path (fs path)))) @ ''\<newline>'' @ END_MARK
       \<and> (send_script w = [] \<longrightarrow> sent = announce path (fs path))"
  using traverse_command_connected [OF assms(1), of fs sep path] sint_count [OF assms(2)]
  by simp

theorem traverse_reports_reachable_file_count_witness:
  "(\<exists>w'. handle_command (\<lambda>p. grove) ''TRAVERSE /r'' fresh_world = Continue w'
       \<and> peer_rx w' = ''Directory: /r\<newline>File: /r/a\<newline>Directory: /r/d\<newline>File: /r/d/b\<newline>ERROR: Cannot open directory\<newline>\<newline>Total Files: 2\<newline><<END>>\<newline>'')
   \<and> (\<exists>w' sent. handle_command (\<lambda>p. grove) ''TRAVERSE /r''
                 (fresh_world\<lparr>send_script := [Takes 4, Takes 100]\<rparr>) = Continue w'
       \<and> peer_rx w' = sent @ ''\<newline>Total Files: 2\<newline><<END>>\<newline>'')"
proof -
  have c: "connected (fresh_world\<lparr>send_script := [Takes 4, Takes 100]\<rparr>)"
    "connected fresh_world"
    by (simp_all add: connected_def fresh_world_def)
  have n: "length (regular_files ''/r'' grove) = 2" by (simp add: grove_def)
  have a: "announce ''/r'' grove = ''Directory: /r\<newline>File: /r/a\<newline>Directory: /r/d\<newline>File: /r/d/b\<newline>ERROR: Cannot open directory\<newline>''"
    by (simp add: grove_def)
  from traverse_reports_reachable_file_count
    [where w = "fresh_world\<lparr>send_script := [Takes 4, Takes 100]\<rparr>" and path = "''/r''"
       and fs = "\<lambda>p. grove" and sep = "CHR '' ''", OF c(1)]
    traverse_reports_reachable_file_count
    [where w = fresh_world and path = "''/r''" and fs = "\<lambda>p. grove" and sep = "CHR '' ''",
       OF c(2)]
  show ?thesis
    unfolding n a
    by (simp add: fresh_world_def to_string_def dec_digits.simps digit_char_def END_MARK_def)
qed

text \<open>The claim without the bound fails: with \<open>2^31\<close> regular files under the root the
  counter has wrapped and the summary shows a negative count.\<close>

lemma regular_files_crowd:
  "length (regular_files_entries p
      (map (\<lambda>i. (CHR ''f'' # dec_digits i, Regular True [] None)) xs)) = length xs"
  by (induction xs) simp_all

theorem traverse_count_wraps:
  "length (regular_files ''/d'' crowded) = 2147483648
   \<and> (\<exists>w' sent. handle_command (\<lambda>p. crowded) ''TRAVERSE /d'' fresh_world = Continue w'
        \<and> peer_rx w' = sent @ ''\<newline>Total Files: -2147483648\<newline><<END>>\<newline>'')"
proof -
  have len: "length (regular_files ''/d'' crowded) = 2147483648"
    by (simp add: crowded_def regular_files_crowd)
  have "connected fresh_world" by (simp add: connected_def fresh_world_def)
  from traverse_command_connected [OF this, of "\<lambda>p. crowded" "CHR '' ''" "''/d''"]
  obtain w' sent where "handle_command (\<lambda>p. crowded) ''TRAVERSE /d'' fresh_world = Continue w'"
    and "peer_rx w' = peer_rx fresh_world @ sent @ ''\<newline>Total Files: ''
            @ to_string (sint (of_nat (length (regular_files ''/d'' crowded)) :: 32 word))
            @ ''\<newline>'' @ END_MARK"
    by auto
  moreover have "to_string (sint (of_nat 2147483648 :: 32 word)) = ''-2147483648''"
    by (simp add: signed_of_nat to_string_def dec_digits.simps digit_char_def)
  ultimately show ?thesis
    using len by (auto simp: END_MARK_def fresh_world_def)
qed

subsection \<open>Reading, searching and the lines of a file\<close>



lemma read_all_no_fault: "read_all None rest content = Some (content @ rest)"
proof (induction "None :: nat option" rest content rule: read_all.induct)
  case (1 rest content)
  show ?case
  proof (cases "rest = []")
    case True
    then show ?thesis by (subst read_all.simps) simp
  next
    case False
    with "1.hyps" have "read_all None (drop 4096 rest) (content @ take 4096 rest)
       = Some ((content @ take 4096 rest) @ drop 4096 rest)" by simp
    with False show ?thesis by (subst read_all.simps) simp
  qed
qed

lemma getlines_path_lines:
  "\<forall>f \<in> set paths. CHR 0x0A \<notin> set f \<Longrightarrow> getlines (path_lines paths) = paths"
proof (induction paths)
  case Nil
  show ?case by (simp add: getlines.simps [of "[]"])
next
  case (Cons f fs)
  then have nl: "CHR 0x0A \<notin> set f" by simp
  have tw: "takeWhile (\<lambda>c. c \<noteq> CHR 0x0A) (f @ CHR 0x0A # path_lines fs) = f"
    using nl by (subst takeWhile_append2) auto
  have dw: "dropWhile (\<lambda>c. c \<noteq> CHR 0x0A) (f @ CHR 0x0A # path_lines fs)
      = CHR 0x0A # path_lines fs"
    using nl by (subst dropWhile_append2) auto
  have "getlines (path_lines (f # fs)) = f # getlines (path_lines fs)"
    by (subst getlines.simps) (simp add: tw dw)
  with Cons show ?case by simp
qed

lemma stream_chunks_whole:
  "send_script w = [] \<Longrightarrow>
   stream_chunks None rest w = (w\<lparr>peer_rx := peer_rx w @ rest\<rparr>, True)"
proof (induction "None :: nat option" rest w rule: stream_chunks.induct)
  case (1 rest w)
  show ?case
  proof (cases "rest = []")
    case True
    then show ?thesis by (subst stream_chunks.simps) simp
  next
    case False
    let ?w' = "w\<lparr>peer_rx := peer_rx w @ take BUFFER_SIZE rest\<rparr>"
    have s: "sock_send w (take BUFFER_SIZE rest) = (?w', int (length (take BUFFER_SIZE rest)))"
      using "1.prems" by (rule sock_send_whole)
    have "stream_chunks None (drop BUFFER_SIZE rest) ?w'
          = (?w'\<lparr>peer_rx := peer_rx ?w' @ drop BUFFER_SIZE rest\<rparr>, True)"
      using "1.hyps"[OF _ False s[symmetric]] "1.prems" by simp
    with False s show ?thesis
      by (subst stream_chunks.simps) simp
  qed
qed

subsection \<open>\<open>INSPECT\<close>\<close>

lemma inspect_unopenable:
  "send_script w = [] \<Longrightarrow> open_rdonly (fs path) = None \<Longrightarrow>
   inspect fs path w = w\<lparr>peer_rx := peer_rx w @ ''ERROR: Cannot open file\<newline>'' @ END_MARK\<rparr>"
  by (simp add: inspect_def sock_send_whole)

lemma inspect_regular:
  "send_script w = [] \<Longrightarrow> fs path = Regular True bytes None \<Longrightarrow>
   inspect fs path w = w\<lparr>peer_rx := peer_rx w @ bytes @ END_MARK\<rparr>"
  by (simp add: inspect_def stream_chunks_whole sock_send_whole)


text \<open>With a peer that takes every send whole, \<open>inspect\<close> on a path that cannot be
  opened sends the error line and the sentinel and nothing else; on a regular file
  that opens and whose reads all succeed it sends the file's bytes, all \<open>N\<close> of them
  for every \<open>N\<close> (none for an empty file, several chunks for a long one), and then
  the sentinel.\<close>

lemma inspect_whole_sends:
  assumes "send_script w = []"
  shows "(open_rdonly (fs path) = None \<longrightarrow>
            peer_rx (inspect fs path w) = peer_rx w @ ''ERROR: Cannot open file\<newline>'' @ END_MARK)
       \<and> (\<forall>bytes N. fs path = Regular True bytes None \<and> length bytes = N \<longrightarrow>
            peer_rx (inspect fs path w) = peer_rx w @ bytes @ END_MARK)"
  using assms by (auto simp: inspect_unopenable inspect_regular)

lemma inspect_whole_sends_example:
  "peer_rx (inspect (\<lambda>p. if p = ''/etc/motd'' then Regular True ''hi'' None else Missing)
             ''/nowhere'' fresh_world) = ''ERROR: Cannot open file\<newline><<END>>\<newline>''
   \<and> peer_rx (inspect (\<lambda>p. if p = ''/etc/motd'' then Regular True ''hi'' None else Missing)
             ''/etc/motd'' fresh_world) = ''hi<<END>>\<newline>''"
  using inspect_whole_sends
      [of fresh_world "\<lambda>p. if p = ''/etc/motd'' then Regular True ''hi'' None else Missing" "''/nowhere''"]
    inspect_whole_sends
      [of fresh_world "\<lambda>p. if p = ''/etc/motd'' then Regular True ''hi'' None else Missing" "''/etc/motd''"]
  by (simp add: fresh_world_def END_MARK_def)

text \<open>
  \<^bold>\<open>C5.\<close> \<open>inspect\<close> hands each chunk to \<open>send\<close> once and tests the value returned only
  for being negative. When the peer stays connected and takes 5 bytes of the one chunk
  of an 11-byte regular file, the 6 bytes left are never sent: the peer receives
  \<open>hello\<close> and the sentinel, not the file's bytes and the sentinel. \<open>safe_send\<close>, which
  the session's own responses go through, delivers all 11 bytes to the same peer.
\<close>

theorem inspect_short_send_loses_bytes:
  "reads_cleanly (Regular True ''hello world'' None)
   \<and> peer_rx (inspect (\<lambda>p. Regular True ''hello world'' None) ''/etc/motd''
             (fresh_world\<lparr>send_script := [Takes 5]\<rparr>)) = ''hello<<END>>\<newline>''
   \<and> peer_rx (fst (safe_send (fresh_world\<lparr>send_script := [Takes 5]\<rparr>) ''hello world''))
       = ''hello world''"
proof -
  let ?w = "fresh_world\<lparr>send_script := [Takes 5]\<rparr>"
  have s: "sock_send ?w ''hello world''
      = (fresh_world\<lparr>peer_rx := ''hello'', send_script := []\<rparr>, 5)"
    by (simp add: sock_send_def fresh_world_def)
  have "stream_chunks None ''hello world'' ?w
      = (fresh_world\<lparr>peer_rx := ''hello'', send_script := []\<rparr>, True)"
    by (subst stream_chunks.simps, simp add: BUFFER_SIZE_def s, subst stream_chunks.simps, simp)
  then have a: "peer_rx (inspect (\<lambda>p. Regular True ''hello world'' None) ''/etc/motd'' ?w)
      = ''hello<<END>>\<newline>''"
    by (simp add: inspect_def sock_send_def fresh_world_def END_MARK_def)
  have "connected ?w" by (simp add: connected_def fresh_world_def)
  from safe_send_connected [OF this, of "''hello world''"]
  have b: "peer_rx (fst (safe_send ?w ''hello world'')) = ''hello world''"
    by (simp add: fresh_world_def)
  have c: "reads_cleanly (Regular True ''hello world'' None)"
    by (simp add: reads_cleanly_def read_all_no_fault)
  from a b c show ?thesis by simp
qed

subsection \<open>\<open>SEARCH\<close>\<close>






lemma send_lines_files [simp]: "files_txt (send_lines w files) = files_txt w"
  by (induction files arbitrary: w) simp_all




















subsection \<open>Every command and its answer\<close>

lemma takeWhile_stops: "c \<in> set xs \<Longrightarrow> length (takeWhile (\<lambda>x. x \<noteq> c) xs) < length xs"
  by (induction xs) auto

lemma find_char_found:
  assumes "c \<in> set (drop pos s)"
  shows "\<exists>k. find_char s c pos = Some k \<and> pos \<le> k \<and> k < length s"
proof -
  let ?t = "takeWhile (\<lambda>x. x \<noteq> c) (drop pos s)"
  have "length ?t < length (drop pos s)"
    using assms by (rule takeWhile_stops)
  then have "pos + length ?t < length s" by simp
  with assms show ?thesis by (simp add: find_char_def)
qed










subsection \<open>Authentication\<close>

lemma hex_byte_length [simp]: "length (hex_byte b) = 2"
  by (simp add: hex_byte_def)

lemma hex_digit_in: "d < 16 \<Longrightarrow> hex_digit d \<in> set ''0123456789abcdef''"
proof -
  assume "d < 16"
  then have "d < length ''0123456789abcdef''" by simp
  then have "''0123456789abcdef'' ! d \<in> set ''0123456789abcdef''" by (rule nth_mem)
  then show ?thesis by (simp only: hex_digit_def)
qed

lemma hex_byte_digits: "set (hex_byte b) \<subseteq> set ''0123456789abcdef''"
proof -
  have "unat b < 256" using unsigned_less [of b] by simp
  then have "unat b div 16 < 16" "unat b mod 16 < 16" by simp_all
  then show ?thesis
    using hex_digit_in [of "unat b div 16"] hex_digit_in [of "unat b mod 16"]
    by (simp add: hex_byte_def)
qed

lemma length_concat_pairs: "\<forall>x \<in> set xs. length (f x) = 2 \<Longrightarrow> length (concat (map f xs)) = 2 * length xs"
  by (induction xs) simp_all

lemma hashPassword_length:
  assumes "SHA256 password \<noteq> None"
  shows "length (hashPassword SHA256 password) = 64"
proof -
  from assms obtain hash where h: "SHA256 password = Some hash" by auto
  have "length (concat (map (\<lambda>i. hex_byte (hash i)) [0..<SHA256_DIGEST_LENGTH]))
      = 2 * length [0..<SHA256_DIGEST_LENGTH]"
    by (rule length_concat_pairs) simp
  also have "\<dots> = 64"
    by (simp only: length_upt SHA256_DIGEST_LENGTH_def)
  finally show ?thesis
    by (simp only: hashPassword_def h option.case)
qed

lemma hashPassword_hex: "set (hashPassword SHA256 password) \<subseteq> set ''0123456789abcdef''"
proof (cases "SHA256 password")
  case None
  then have "hashPassword SHA256 password = []" by (simp only: hashPassword_def option.case)
  then show ?thesis by (simp only: list.set empty_subsetI)
next
  case (Some hash)
  show ?thesis
  proof
    fix c assume "c \<in> set (hashPassword SHA256 password)"
    then have "c \<in> set (concat (map (\<lambda>i. hex_byte (hash i)) [0..<SHA256_DIGEST_LENGTH]))"
      by (simp only: hashPassword_def Some option.case)
    then obtain i where "c \<in> set (hex_byte (hash i))"
      unfolding set_concat by auto
    with hex_byte_digits [of "hash i"] show "c \<in> set ''0123456789abcdef''"
      by (rule_tac subsetD)
  qed
qed

lemma generateSalt_length: "length (generateSalt dist) = 16"
  by (simp add: generateSalt_def)

lemma generateSalt_charset:
  assumes "\<forall>i<16. dist i < 62"
  shows "set (generateSalt dist) \<subseteq> set charset"
proof
  fix c assume "c \<in> set (generateSalt dist)"
  then obtain i where i: "i < 16" and c: "c = charset ! dist i"
    by (auto simp: generateSalt_def)
  have "length charset = 62" by (simp add: charset_def)
  with assms i have "dist i < length charset" by simp
  then show "c \<in> set charset" unfolding c by (rule nth_mem)
qed

lemma authenticate_handshake:
  assumes "send_script w = []" and "buffer1 \<noteq> []" and "buffer2 \<noteq> []"
  shows "authenticate SHA256 dist (buffer1 # buffer2 # later) w =
     (case check_credentials SHA256 dist (strip_crlf (c_str buffer1)) (strip_crlf (c_str buffer2))
             (w\<lparr>peer_rx := peer_rx w @ ''Username: '' @ ''Password: ''\<rparr>) of
        (ok, w3) \<Rightarrow> (ok, later, w3))"
  using assms by (simp add: authenticate_def safe_send_whole recv_def)

lemma authenticate_handshake_connected:
  assumes "connected w" and "buffer1 \<noteq> []" and "buffer2 \<noteq> []"
  shows "authenticate SHA256 dist (buffer1 # buffer2 # later) w =
     (case check_credentials SHA256 dist (strip_crlf (c_str buffer1)) (strip_crlf (c_str buffer2))
             (fst (safe_send (fst (safe_send w ''Username: '')) ''Password: '')) of
        (ok, w3) \<Rightarrow> (ok, later, w3))"
proof -
  have a: "snd (safe_send w ''Username: '')" "connected (fst (safe_send w ''Username: ''))"
    using safe_send_connected [OF assms(1), of "''Username: ''"] by simp_all
  have b: "snd (safe_send (fst (safe_send w ''Username: '')) ''Password: '')"
    using safe_send_connected [OF a(2), of "''Password: ''"] by simp
  show ?thesis
    using a(1) b assms(2,3)
    by (simp add: authenticate_def recv_def case_prod_beta Let_def)
qed

text \<open>
  \<^bold>\<open>C7.\<close> Let the peer stay connected, the store be writable, the digest be computed,
  the draws lie in 0..61, and no record of the store have the username (the first chunk
  received, stripped) in its user field. Then \<open>authenticate\<close> succeeds, the store
  has grown by the one line \<open>username:salt:hash\<close> and its newline, the salt has 16
  characters of the character set, the hash is the digest of password and salt in 64
  lower-case hexadecimal digits, and the peer has received the two prompts and
  \<open>Account created\<close>, however short its sends are taken.
\<close>

theorem registration_appends_one_record:
  assumes "connected w" and "data_writable w"
    and "buffer1 \<noteq> []" and "buffer2 \<noteq> []"
    and "username = strip_crlf (c_str buffer1)" and "password = strip_crlf (c_str buffer2)"
    and "find_user username (store_lines (users_txt w)) = None"
    and "SHA256 (password @ generateSalt dist) \<noteq> None"
    and "\<forall>i<16. dist i < 62"
  shows "\<exists>salt hash w'.
       authenticate SHA256 dist (buffer1 # buffer2 # later) w = (True, later, w')
     \<and> users_txt w'
         = append_text (users_txt w) (username @ '':'' @ salt @ '':'' @ hash @ ''\<newline>'')
     \<and> length salt = 16 \<and> set salt \<subseteq> set charset
     \<and> hash = hashPassword SHA256 (password @ salt)
     \<and> length hash = 64 \<and> set hash \<subseteq> set ''0123456789abcdef''
     \<and> peer_rx w' = peer_rx w @ ''Username: '' @ ''Password: '' @ ''Account created\<newline>''"
proof -
  let ?salt = "generateSalt dist"
  let ?hash = "hashPassword SHA256 (password @ ?salt)"
  let ?w2 = "fst (safe_send (fst (safe_send w ''Username: '')) ''Password: '')"
  let ?w3 = "log (open_log (?w2\<lparr>users_txt := append_text (users_txt ?w2)
            (username @ '':'' @ ?salt @ '':'' @ ?hash @ ''\<newline>'')\<rparr>))
          ''New user registered securely''"
  let ?w' = "fst (safe_send ?w3 ''Account created\<newline>'')"
  have w2: "peer_rx ?w2 = peer_rx w @ ''Username: '' @ ''Password: ''" "connected ?w2"
    using safe_send_twice [OF assms(1), of "''Username: ''" "''Password: ''"] by simp_all
  have f2: "users_txt ?w2 = users_txt w" "data_writable ?w2 = data_writable w"
    by simp_all
  have cc: "check_credentials SHA256 dist username password ?w2 = (True, ?w')"
    using assms(2,7) f2
    by (simp add: check_credentials_def Let_def case_prod_beta)
  have auth: "authenticate SHA256 dist (buffer1 # buffer2 # later) w = (True, later, ?w')"
    using authenticate_handshake_connected [OF assms(1,3,4), of SHA256 dist later] cc assms(5,6)
    by simp
  have store: "users_txt ?w'
      = append_text (users_txt w) (username @ '':'' @ ?salt @ '':'' @ ?hash @ ''\<newline>'')"
    by simp
  have c3: "connected ?w3" using w2(2) by simp
  have rx: "peer_rx ?w' = peer_rx w @ ''Username: '' @ ''Password: '' @ ''Account created\<newline>''"
    using safe_send_connected [OF c3, of "''Account created\<newline>''"] w2(1) by simp
  show ?thesis
  proof (rule exI [of _ ?salt], rule exI [of _ ?hash], rule exI [of _ ?w'], intro conjI)
    show "authenticate SHA256 dist (buffer1 # buffer2 # later) w = (True, later, ?w')"
      by (rule auth)
    show "users_txt ?w'
        = append_text (users_txt w) (username @ '':'' @ ?salt @ '':'' @ ?hash @ ''\<newline>'')"
      by (rule store)
    show "length ?salt = 16" by (rule generateSalt_length)
    show "set ?salt \<subseteq> set charset" by (rule generateSalt_charset [OF assms(9)])
    show "?hash = hashPassword SHA256 (password @ ?salt)" by (rule refl)
    show "length ?hash = 64"
      by (rule hashPassword_length [of SHA256 "password @ ?salt", OF assms(8)])
    show "set ?hash \<subseteq> set ''0123456789abcdef''" by (rule hashPassword_hex)
    show "peer_rx ?w' = peer_rx w @ ''Username: '' @ ''Password: '' @ ''Account created\<newline>''"
      by (rule rx)
  qed
qed

lemma salt_example: "generateSalt (\<lambda>i. i) = ''0123456789ABCDEF''"
  by (simp add: generateSalt_def charset_def upt_rec)

lemma hash_example:
  "hashPassword toy_digest ''pw0123456789ABCDEF''
     = ''1212121212121212121212121212121212121212121212121212121212121212''"
  by (simp add: hashPassword_def toy_digest_def SHA256_DIGEST_LENGTH_def hex_byte_def
      hex_digit_def upt_rec)

theorem registration_appends_one_record_witness:
  "\<exists>salt hash w'.
       authenticate toy_digest (\<lambda>i. i) [''alice\<newline>'', ''secret\<newline>'']
         (fresh_world\<lparr>send_script := [Takes 4]\<rparr>) = (True, [], w')
     \<and> users_txt w' = Some (''alice:'' @ salt @ '':'' @ hash @ ''\<newline>'')
     \<and> length salt = 16 \<and> set salt \<subseteq> set charset
     \<and> length hash = 64 \<and> set hash \<subseteq> set ''0123456789abcdef''
     \<and> peer_rx w' = ''Username: Password: Account created\<newline>''"
proof -
  let ?w = "fresh_world\<lparr>send_script := [Takes 4]\<rparr>"
  have u: "''alice'' = strip_crlf (c_str ''alice\<newline>'')"
    and p: "''secret'' = strip_crlf (c_str ''secret\<newline>'')"
    by (simp_all add: strip_crlf_def c_str_def find_last_not_of_def)
  have n: "find_user ''alice'' (store_lines (users_txt ?w)) = None"
    by (simp add: fresh_world_def store_lines_def)
  have d: "toy_digest (''secret'' @ generateSalt (\<lambda>i. i)) \<noteq> None"
    by (simp add: toy_digest_def)
  have r: "\<forall>i<16. (\<lambda>i. i) i < (62::nat)" by simp
  have b: "connected ?w" and dw: "data_writable ?w"
    by (simp_all add: fresh_world_def connected_def)
  from registration_appends_one_record
    [where w = ?w and ?buffer1.0 = "''alice\<newline>''" and ?buffer2.0 = "''secret\<newline>''"
       and ?SHA256.0 = toy_digest and dist = "\<lambda>i. i" and later = "[]"
       and username = "''alice''" and password = "''secret''", OF b dw _ _ u p n d r]
  show ?thesis
    by (simp add: fresh_world_def append_text_def) blast
qed

text \<open>As the claim has it, a record is appended whenever no record is found. When the
  store cannot be opened for writing, \<open>authenticate\<close> returns \<open>false\<close> after the
  prompts: no record, no response.\<close>

theorem registration_refused_without_writable_store:
  "find_user ''alice'' (store_lines (users_txt (fresh_world\<lparr>data_writable := False\<rparr>))) = None
   \<and> authenticate toy_digest (\<lambda>i. i) [''alice'', ''secret''] (fresh_world\<lparr>data_writable := False\<rparr>)
       = (False, [], fresh_world\<lparr>data_writable := False, peer_rx := ''Username: Password: ''\<rparr>)"
proof -
  have "send_script (fresh_world\<lparr>data_writable := False\<rparr>) = []"
    by (simp add: fresh_world_def)
  from authenticate_handshake [OF this, of "''alice''" "''secret''" toy_digest "\<lambda>i. i" "[]"]
  show ?thesis
    by (simp add: check_credentials_def fresh_world_def store_lines_def Let_def)
qed

subsection \<open>Usernames that hold a colon\<close>

text \<open>The user field read back from a line ends before the line's first colon, so a
  username with a colon in it is the user field of no line, whatever the store holds:
  every authentication with it registers it again, with any password.\<close>

lemma parse_record_user: "fst (parse_record line) = takeWhile (\<lambda>c. c \<noteq> CHR '':'') line"
  by (simp add: parse_record_def getline_def split: option.splits)

lemma colon_username_never_found:
  assumes "CHR '':'' \<in> set username"
  shows "find_user username lines = None"
proof (induction lines)
  case Nil
  show ?case by simp
next
  case (Cons line lines)
  have "CHR '':'' \<notin> set (takeWhile (\<lambda>c. c \<noteq> CHR '':'') line)"
    by (auto dest: set_takeWhileD)
  with assms have "fst (parse_record line) \<noteq> username"
    by (auto simp: parse_record_user)
  with Cons show ?case
    by (cases "parse_record line") auto
qed

lemma colon_username_registers:
  assumes "CHR '':'' \<in> set username" and "data_writable w" and "send_script w = []"
  shows "check_credentials SHA256 dist username password w =
     (True, (log (open_log (w\<lparr>users_txt := append_text (users_txt w)
                (username @ '':'' @ generateSalt dist @ '':''
                 @ hashPassword SHA256 (password @ generateSalt dist) @ ''\<newline>'')\<rparr>))
              ''New user registered securely'')
            \<lparr>peer_rx := peer_rx w @ ''Account created\<newline>''\<rparr>)"
  using assms(2,3) colon_username_never_found [OF assms(1)]
  by (simp add: check_credentials_def Let_def safe_send_whole)

lemma salt_example2: "generateSalt (\<lambda>i. i + 10) = ''ABCDEFGHIJKLMNOP''"
  by (simp add: generateSalt_def charset_def upt_rec)

lemma hash_example2:
  "hashPassword toy_digest ''otherABCDEFGHIJKLMNOP''
     = ''1515151515151515151515151515151515151515151515151515151515151515''"
  by (simp add: hashPassword_def toy_digest_def SHA256_DIGEST_LENGTH_def hex_byte_def
      hex_digit_def upt_rec)

lemma first_session:
  "authenticate toy_digest (\<lambda>i. i) [''a:b'', ''pw''] fresh_world
     = (True, [], fresh_world\<lparr>peer_rx := ''Username: Password: Account created\<newline>'',
          users_txt := first_store, session_log := Some [''New user registered securely'']\<rparr>)"
proof -
  have u: "strip_crlf (c_str ''a:b'') = ''a:b''" and p: "strip_crlf (c_str ''pw'') = ''pw''"
    by (simp_all add: strip_crlf_def c_str_def find_last_not_of_def)
  have "send_script fresh_world = []" by (simp add: fresh_world_def)
  from authenticate_handshake [OF this, of "''a:b''" "''pw''" toy_digest "\<lambda>i. i" "[]"]
  show ?thesis
    unfolding u p
    by (simp add: colon_username_registers salt_example hash_example fresh_world_def
        append_text_def open_log_def log_def first_store_def)
qed

text \<open>
  \<^bold>\<open>C3.\<close> The username \<open>a:b\<close> is registered with the password \<open>pw\<close>. A later
  session on the same store gives the username \<open>a:b\<close> and the password \<open>other\<close>:
  \<open>authenticate\<close> returns \<open>true\<close> and the peer receives \<open>Account created\<close>, not
  \<open>Incorrect password\<close>.
\<close>

theorem colon_username_accepts_wrong_password:
  "authenticate toy_digest (\<lambda>i. i) [''a:b'', ''pw''] fresh_world
     = (True, [], fresh_world\<lparr>peer_rx := ''Username: Password: Account created\<newline>'',
          users_txt := first_store, session_log := Some [''New user registered securely'']\<rparr>)
   \<and> ''other'' \<noteq> ''pw''
   \<and> (\<exists>w2. authenticate toy_digest (\<lambda>i. i + 10) [''a:b'', ''other'']
              (fresh_world\<lparr>users_txt := first_store\<rparr>) = (True, [], w2)
          \<and> peer_rx w2 = ''Username: Password: Account created\<newline>'')"
proof -
  have u: "strip_crlf (c_str ''a:b'') = ''a:b''" and p: "strip_crlf (c_str ''other'') = ''other''"
    by (simp_all add: strip_crlf_def c_str_def find_last_not_of_def)
  have "send_script (fresh_world\<lparr>users_txt := first_store\<rparr>) = []"
    by (simp add: fresh_world_def)
  from authenticate_handshake [OF this, of "''a:b''" "''other''" toy_digest "\<lambda>i. i + 10" "[]"]
  have "\<exists>w2. authenticate toy_digest (\<lambda>i. i + 10) [''a:b'', ''other'']
              (fresh_world\<lparr>users_txt := first_store\<rparr>) = (True, [], w2)
          \<and> peer_rx w2 = ''Username: Password: Account created\<newline>''"
    unfolding u p
    by (simp add: colon_username_registers fresh_world_def)
  with first_session show ?thesis by simp
qed

text \<open>
  \<^bold>\<open>C6.\<close> The store holds one record, with the user field \<open>a\<close>, written for the
  username \<open>a:b\<close>. An authentication with the username \<open>a:b\<close>, alone on the store,
  appends a second record: the store then has two records for that username, both
  with the user field \<open>a\<close>.
\<close>

theorem colon_username_gets_second_record:
  "\<exists>w2. authenticate toy_digest (\<lambda>i. i + 10) [''a:b'', ''other'']
              (fresh_world\<lparr>users_txt := first_store\<rparr>) = (True, [], w2)
      \<and> store_usernames first_store = [''a'']
      \<and> store_usernames (users_txt w2) = [''a'', ''a'']
      \<and> \<not> distinct (store_usernames (users_txt w2))"
proof -
  have u: "strip_crlf (c_str ''a:b'') = ''a:b''" and p: "strip_crlf (c_str ''other'') = ''other''"
    by (simp_all add: strip_crlf_def c_str_def find_last_not_of_def)
  have "send_script (fresh_world\<lparr>users_txt := first_store\<rparr>) = []"
    by (simp add: fresh_world_def)
  from authenticate_handshake [OF this, of "''a:b''" "''other''" toy_digest "\<lambda>i. i + 10" "[]"]
  have a: "authenticate toy_digest (\<lambda>i. i + 10) [''a:b'', ''other'']
              (fresh_world\<lparr>users_txt := first_store\<rparr>)
        = (True, [], fresh_world\<lparr>peer_rx := ''Username: Password: Account created\<newline>'',
             users_txt := Some (''a:b:0123456789ABCDEF:1212121212121212121212121212121212121212121212121212121212121212\<newline>''
                @ ''a:b:ABCDEFGHIJKLMNOP:1515151515151515151515151515151515151515151515151515151515151515\<newline>''),
             session_log := Some [''New user registered securely'']\<rparr>)"
    unfolding u p
    by (simp add: colon_username_registers salt_example2 hash_example2 fresh_world_def
        append_text_def open_log_def log_def first_store_def)
  have s1: "store_usernames first_store = [''a'']"
    by (simp add: store_usernames_def store_lines_def first_store_def getlines.simps
        parse_record_user)
  have s2: "store_usernames (Some (''a:b:0123456789ABCDEF:1212121212121212121212121212121212121212121212121212121212121212\<newline>''
                @ ''a:b:ABCDEFGHIJKLMNOP:1515151515151515151515151515151515151515151515151515151515151515\<newline>''))
        = [''a'', ''a'']"
    by (simp add: store_usernames_def store_lines_def getlines.simps parse_record_user)
  show ?thesis
    using a s1 s2 by simp
qed

subsection \<open>Usernames without a colon or a line break\<close>

text \<open>For a username that holds neither a colon nor a line break, on a store whose last
  line is complete and with draws in 0..61, the record written is read back as it was
  written: the same username and password log in, a password with another digest is
  refused, and the usernames of the store stay distinct.\<close>

lemma getlines_single: "CHR 0x0A \<notin> set line \<Longrightarrow> getlines (line @ [CHR 0x0A]) = [line]"
  using getlines_path_lines [of "[line]"] by simp

lemma getlines_append_line:
  assumes "CHR 0x0A \<notin> set line"
  shows "stored = [] \<or> last stored = CHR 0x0A \<Longrightarrow>
         getlines (stored @ line @ [CHR 0x0A]) = getlines stored @ [line]"
proof (induction stored rule: getlines.induct)
  case (1 s)
  show ?case
  proof (cases "s = []")
    case True
    then show ?thesis
      using getlines_single [OF assms] by (simp add: getlines.simps [of "[]"])
  next
    case False
    with "1.prems" have l: "last s = CHR 0x0A" by simp
    with False have nl: "CHR 0x0A \<in> set s" by (metis last_in_set)
    let ?P = "\<lambda>c. c \<noteq> CHR 0x0A"
    let ?X = "line @ [CHR 0x0A]"
    have dne: "dropWhile ?P s \<noteq> []" using nl by (simp add: dropWhile_eq_Nil_conv)
    have tw: "takeWhile ?P (s @ ?X) = takeWhile ?P s"
      using nl by (simp add: takeWhile_append1)
    have dw: "dropWhile ?P (s @ ?X) = dropWhile ?P s @ ?X"
      using nl by (simp add: dropWhile_append1)
    let ?r = "drop 1 (dropWhile ?P s)"
    have dr: "drop 1 (dropWhile ?P s @ ?X) = ?r @ ?X"
      using dne by (cases "dropWhile ?P s") simp_all
    have "?r = [] \<or> last ?r = CHR 0x0A"
    proof (cases "?r = []")
      case True then show ?thesis by simp
    next
      case False
      then have "last ?r = last (dropWhile ?P s)" by (simp add: last_drop)
      also have "\<dots> = last s"
        using dne by (metis append_take_drop_id last_appendR takeWhile_dropWhile_id)
      finally show ?thesis using l by simp
    qed
    with "1.IH" False have ih: "getlines (?r @ ?X) = getlines ?r @ [line]" by simp
    have "getlines (s @ ?X)
        = takeWhile ?P (s @ ?X) # getlines (drop 1 (dropWhile ?P (s @ ?X)))"
      using False by (subst getlines.simps) simp
    then have "getlines (s @ ?X) = takeWhile ?P s # getlines (?r @ ?X)"
      by (simp only: tw dw dr)
    also have "\<dots> = (takeWhile ?P s # getlines ?r) @ [line]" using ih by simp
    also have "takeWhile ?P s # getlines ?r = getlines s"
      using False by (subst (2) getlines.simps) simp
    finally show ?thesis by simp
  qed
qed

lemma parse_record_fields:
  assumes "CHR '':'' \<notin> set u" and "CHR '':'' \<notin> set s" and "CHR 0x0A \<notin> set h"
  shows "parse_record (u @ '':'' @ s @ '':'' @ h) = (u, s, h)"
proof -
  let ?C = "\<lambda>c. c \<noteq> CHR '':''" and ?N = "\<lambda>c. c \<noteq> CHR 0x0A"
  have 1: "takeWhile ?C (u @ CHR '':'' # s @ CHR '':'' # h) = u"
    using assms(1) by (subst takeWhile_append2) auto
  have 2: "dropWhile ?C (u @ CHR '':'' # s @ CHR '':'' # h) = CHR '':'' # s @ CHR '':'' # h"
    using assms(1) by (subst dropWhile_append2) auto
  have 3: "takeWhile ?C (s @ CHR '':'' # h) = s"
    using assms(2) by (subst takeWhile_append2) auto
  have 4: "dropWhile ?C (s @ CHR '':'' # h) = CHR '':'' # h"
    using assms(2) by (subst dropWhile_append2) auto
  have 5: "takeWhile ?N h = h"
    using assms(3) by (auto simp: takeWhile_eq_all_conv)
  show ?thesis
    by (simp add: parse_record_def getline_def 1 2 3 4 5)
qed

lemma find_user_append:
  "find_user u (ls @ ms) = (case find_user u ls of None \<Rightarrow> find_user u ms | Some x \<Rightarrow> Some x)"
  by (induction ls) (auto split: prod.splits)

lemma find_user_None_iff:
  "find_user u ls = None \<longleftrightarrow> u \<notin> set (map (\<lambda>line. fst (parse_record line)) ls)"
  by (induction ls) (auto split: prod.splits)

lemma charset_plain: "CHR '':'' \<notin> set charset" "CHR 0x0A \<notin> set charset"
  by (simp_all add: charset_def)

lemma hex_plain: "CHR 0x0A \<notin> set ''0123456789abcdef''"
  by simp

lemma store_lines_after_append:
  assumes "line_terminated store" and "CHR 0x0A \<notin> set line"
  shows "store_lines (append_text store (line @ ''\<newline>'')) = store_lines store @ [line]"
proof (cases store)
  case None
  then show ?thesis
    using getlines_single [OF assms(2)]
    by (simp add: store_lines_def append_text_def)
next
  case (Some stored)
  with assms(1) have "stored = [] \<or> last stored = CHR 0x0A"
    by (simp add: line_terminated_def)
  from getlines_append_line [OF assms(2) this] Some show ?thesis
    by (simp add: store_lines_def append_text_def)
qed

lemma record_line_plain:
  assumes "CHR 0x0A \<notin> set username" and "\<forall>i<16. dist i < 62"
  shows "CHR 0x0A \<notin> set (username @ '':'' @ generateSalt dist @ '':''
            @ hashPassword SHA256 (password @ generateSalt dist))"
proof -
  have "CHR 0x0A \<notin> set (generateSalt dist)"
    using generateSalt_charset [OF assms(2)] charset_plain(2) by blast
  moreover have "CHR 0x0A \<notin> set (hashPassword SHA256 (password @ generateSalt dist))"
    using hashPassword_hex [of SHA256 "password @ generateSalt dist"] hex_plain by blast
  ultimately show ?thesis using assms(1) by simp
qed

lemma registered_user_is_found:
  assumes "CHR '':'' \<notin> set username" and "CHR 0x0A \<notin> set username"
    and "line_terminated store" and "\<forall>i<16. dist i < 62"
    and "find_user username (store_lines store) = None"
  shows "find_user username (store_lines (append_text store
            (username @ '':'' @ generateSalt dist @ '':''
             @ hashPassword SHA256 (password @ generateSalt dist) @ ''\<newline>'')))
         = Some (generateSalt dist, hashPassword SHA256 (password @ generateSalt dist))"
proof -
  let ?salt = "generateSalt dist"
  let ?hash = "hashPassword SHA256 (password @ ?salt)"
  let ?line = "username @ '':'' @ ?salt @ '':'' @ ?hash"
  have plain: "CHR 0x0A \<notin> set ?line"
    by (rule record_line_plain [OF assms(2,4)])
  have "CHR '':'' \<notin> set ?salt"
    using generateSalt_charset [OF assms(4)] charset_plain(1) by blast
  moreover have "CHR 0x0A \<notin> set ?hash"
    using hashPassword_hex [of SHA256 "password @ ?salt"] hex_plain by blast
  ultimately have fields: "parse_record ?line = (username, ?salt, ?hash)"
    using assms(1) by (intro parse_record_fields)
  have "store_lines (append_text store (?line @ ''\<newline>'')) = store_lines store @ [?line]"
    by (rule store_lines_after_append [OF assms(3) plain])
  then show ?thesis
    using assms(5) fields by (simp add: find_user_append)
qed

lemma well_formed_username_roundtrip:
  assumes "CHR '':'' \<notin> set username" and "CHR 0x0A \<notin> set username"
    and "line_terminated (users_txt w)" and "\<forall>i<16. dist i < 62"
    and "find_user username (store_lines (users_txt w)) = None"
    and "data_writable w" and "send_script w = []"
    and "users_txt v = users_txt (snd (check_credentials SHA256 dist username password w))"
    and "send_script v = []"
  shows "fst (check_credentials SHA256 dist username password w)"
    and "peer_rx (snd (check_credentials SHA256 dist username password w))
           = peer_rx w @ ''Account created\<newline>''"
    and "fst (check_credentials SHA256 dist' username password v)"
    and "peer_rx (snd (check_credentials SHA256 dist' username password v))
           = peer_rx v @ ''Login successful\<newline>''"
    and "hashPassword SHA256 (password' @ generateSalt dist)
           \<noteq> hashPassword SHA256 (password @ generateSalt dist) \<Longrightarrow>
         \<not> fst (check_credentials SHA256 dist' username password' v)
         \<and> peer_rx (snd (check_credentials SHA256 dist' username password' v))
           = peer_rx v @ ''Incorrect password\<newline>''"
proof -
  let ?salt = "generateSalt dist"
  let ?hash = "hashPassword SHA256 (password @ ?salt)"
  let ?store = "append_text (users_txt w) (username @ '':'' @ ?salt @ '':'' @ ?hash @ ''\<newline>'')"
  show "fst (check_credentials SHA256 dist username password w)"
    using assms(5,6) by (simp add: check_credentials_def Let_def)
  show "peer_rx (snd (check_credentials SHA256 dist username password w))
           = peer_rx w @ ''Account created\<newline>''"
    using assms(5,6,7) by (simp add: check_credentials_def Let_def safe_send_whole)
  have "users_txt v = ?store"
    using assms(5,6,8) by (simp add: check_credentials_def Let_def)
  with registered_user_is_found [OF assms(1-5), of SHA256 password]
  have found: "find_user username (store_lines (users_txt v)) = Some (?salt, ?hash)" by simp
  show "fst (check_credentials SHA256 dist' username password v)"
    using found by (simp add: check_credentials_def)
  show "peer_rx (snd (check_credentials SHA256 dist' username password v))
           = peer_rx v @ ''Login successful\<newline>''"
    using found assms(9) by (simp add: check_credentials_def safe_send_whole)
  show "\<not> fst (check_credentials SHA256 dist' username password' v)
         \<and> peer_rx (snd (check_credentials SHA256 dist' username password' v))
           = peer_rx v @ ''Incorrect password\<newline>''"
    if "hashPassword SHA256 (password' @ ?salt) \<noteq> ?hash"
    using found assms(9) that by (simp add: check_credentials_def safe_send_whole)
qed

lemma registration_keeps_usernames_distinct:
  assumes "CHR '':'' \<notin> set username" and "CHR 0x0A \<notin> set username"
    and "line_terminated (users_txt w)" and "\<forall>i<16. dist i < 62"
    and "distinct (store_usernames (users_txt w))"
  shows "distinct (store_usernames
           (users_txt (snd (check_credentials SHA256 dist username password w))))
       \<and> line_terminated (users_txt (snd (check_credentials SHA256 dist username password w)))"
proof (cases "find_user username (store_lines (users_txt w))")
  case (Some a)
  then show ?thesis
    using assms(3,5) by (cases a) (simp add: check_credentials_def)
next
  case None
  show ?thesis
  proof (cases "data_writable w")
    case False
    with None assms(3,5) show ?thesis by (simp add: check_credentials_def Let_def)
  next
    case True
    let ?salt = "generateSalt dist"
    let ?hash = "hashPassword SHA256 (password @ ?salt)"
    let ?line = "username @ '':'' @ ?salt @ '':'' @ ?hash"
    have st: "users_txt (snd (check_credentials SHA256 dist username password w))
        = append_text (users_txt w) (?line @ ''\<newline>'')"
      using None True by (simp add: check_credentials_def Let_def)
    have plain: "CHR 0x0A \<notin> set ?line"
      by (rule record_line_plain [OF assms(2,4)])
    have lines: "store_lines (append_text (users_txt w) (?line @ ''\<newline>''))
        = store_lines (users_txt w) @ [?line]"
      by (rule store_lines_after_append [OF assms(3) plain])
    have "takeWhile (\<lambda>c. c \<noteq> CHR '':'') (username @ CHR '':'' # ?salt @ '':'' @ ?hash)
        = username"
      using assms(1) by (subst takeWhile_append2) auto
    then have user: "fst (parse_record ?line) = username"
      by (simp add: parse_record_user)
    have new: "username \<notin> set (store_usernames (users_txt w))"
      using None by (simp add: find_user_None_iff store_usernames_def)
    have "store_usernames (append_text (users_txt w) (?line @ ''\<newline>''))
        = store_usernames (users_txt w) @ [username]"
      unfolding store_usernames_def lines using user by simp
    then have "distinct (store_usernames (append_text (users_txt w) (?line @ ''\<newline>'')))"
      using assms(5) new by simp
    moreover have "line_terminated (append_text (users_txt w) (?line @ ''\<newline>''))"
      by (simp add: line_terminated_def append_text_def)
    ultimately show ?thesis by (simp only: st)
  qed
qed

end
